theory Spec2Isabelle
  imports Complex_Main "HOL-Library.Product_Lexorder"
begin

section \<open>Outline extraction (extract\_outline.py)\<close>

text \<open>
  A shallow embedding of \<^verbatim>\<open>src/extract_outline.py\<close>. Python strings are modelled as
  \<^typ>\<open>string\<close>; a \<^typ>\<open>char\<close> is read as the code point of the same number, so the
  texts covered are those over the first 256 code points (Latin-1). On these, Python's
  \<^verbatim>\<open>str.isspace\<close>, \<^verbatim>\<open>str.lower\<close>, the regular expression classes
  \<^verbatim>\<open>\s\<close> and \<^verbatim>\<open>\d\<close> and case-insensitive matching against the ASCII patterns
  of the source are the functions below. Font sizes (Python floats) are modelled by their
  exact values in \<^typ>\<open>rat\<close>; Python's built-in \<^verbatim>\<open>round(x, 1)\<close> on floats is a
  parameter \<open>round1\<close> of the definitions that use it.
\<close>

subsection \<open>String primitives\<close>

text \<open>\<^verbatim>\<open>str.isspace\<close> on one character, which is also the class \<^verbatim>\<open>\s\<close> of
  \<^verbatim>\<open>re\<close> and what \<^verbatim>\<open>str.strip()\<close> removes: TAB, LF, VT, FF, CR, FS, GS, RS, US,
  SPACE, NEL (133) and NBSP (160).\<close>

definition isspace :: "char \<Rightarrow> bool" where
  "isspace c = (of_char c \<in> {9, 10, 11, 12, 13, 28, 29, 30, 31, 32, 133, 160 :: nat})"

text \<open>The class \<^verbatim>\<open>\d\<close>: the decimal digits.\<close>

definition isdigit :: "char \<Rightarrow> bool" where
  "isdigit c = (48 \<le> (of_char c :: nat) \<and> (of_char c :: nat) \<le> 57)"

text \<open>The class \<^verbatim>\<open>[A-Z]\<close>.\<close>

definition isupper_az :: "char \<Rightarrow> bool" where
  "isupper_az c = (65 \<le> (of_char c :: nat) \<and> (of_char c :: nat) \<le> 90)"

text \<open>\<^verbatim>\<open>str.lower\<close> on one character: A-Z and the Latin-1 capitals 192-222 (but the
  multiplication sign 215) move up by 32.\<close>

definition lower_char :: "char \<Rightarrow> char" where
  "lower_char c =
     (let n = (of_char c :: nat)
      in if (65 \<le> n \<and> n \<le> 90) \<or> (192 \<le> n \<and> n \<le> 222 \<and> n \<noteq> 215)
         then char_of (n + 32) else c)"

definition lower :: "string \<Rightarrow> string" where
  "lower s = map lower_char s"

text \<open>\<^verbatim>\<open>text.strip()\<close>.\<close>

definition strip :: "string \<Rightarrow> string" where
  "strip s = rev (dropWhile isspace (rev (dropWhile isspace s)))"

text \<open>\<^verbatim>\<open>text.startswith(p)\<close>, \<^verbatim>\<open>text.endswith(p)\<close> and \<^verbatim>\<open>p in text\<close>.\<close>

fun startswith :: "string \<Rightarrow> string \<Rightarrow> bool" where
  "startswith s [] = True"
| "startswith [] (p # ps) = False"
| "startswith (c # cs) (p # ps) = (c = p \<and> startswith cs ps)"

definition endswith :: "string \<Rightarrow> string \<Rightarrow> bool" where
  "endswith s p = startswith (rev s) (rev p)"

fun substr_in :: "string \<Rightarrow> string \<Rightarrow> bool" where
  "substr_in p [] = (p = [])"
| "substr_in p (c # cs) = (startswith (c # cs) p \<or> substr_in p cs)"

text \<open>\<^verbatim>\<open>" ".join(parts)\<close>.\<close>

fun join_sp :: "string list \<Rightarrow> string" where
  "join_sp [] = []"
| "join_sp [x] = x"
| "join_sp (x # y # ys) = x @ CHR '' '' # join_sp (y # ys)"

text \<open>\<^verbatim>\<open>re.sub(r'\s+', ' ', s)\<close>: every maximal run of whitespace becomes one space.\<close>

function sub_ws :: "string \<Rightarrow> string" where
  "sub_ws [] = []"
| "sub_ws (c # cs) =
     (if isspace c then CHR '' '' # sub_ws (dropWhile isspace cs) else c # sub_ws cs)"
  by pat_completeness auto
termination
  by (relation "measure length") (auto simp: length_dropWhile_le less_Suc_eq_le)

text \<open>\<^verbatim>\<open>def clean(text): return re.sub(r'\s+', ' ', text.strip())\<close>\<close>

definition clean :: "string \<Rightarrow> string" where
  "clean text = sub_ws (strip text)"

subsection \<open>Regular expressions of the source\<close>

text \<open>The patterns carrying \<^verbatim>\<open>re.I\<close> consist of ASCII letters, spaces and colons, so a
  text matches one of them exactly when its lower-cased form matches the lower-cased
  pattern. \<^verbatim>\<open>re.match\<close> anchors at the start only; \<^verbatim>\<open>$\<close> matches at the end of
  the text or before one final newline.\<close>

definition at_end :: "string \<Rightarrow> bool" where
  "at_end rest = (rest = [] \<or> rest = [CHR 0x0A])"

text \<open>\<^verbatim>\<open>re.match(r'^(Summary|Background|Timeline|Milestones)$', text, re.I)\<close>\<close>

definition re_main_section :: "string \<Rightarrow> bool" where
  "re_main_section text =
     list_ex (\<lambda>w. startswith (lower text) w \<and> at_end (drop (length w) text))
       [''summary'', ''background'', ''timeline'', ''milestones'']"

text \<open>\<^verbatim>\<open>re.match(r'^(Appendix [A-C]:|Phase [IVX]+:|The Business Plan)', text, re.I)\<close>.
  After the greedy \<^verbatim>\<open>[IVX]+\<close> the colon is outside the class, so only the longest
  run of numeral letters can be followed by it.\<close>

definition re_appendix_phase_plan :: "string \<Rightarrow> bool" where
  "re_appendix_phase_plan text =
     (let t = lower text in
        (startswith t ''appendix '' \<and>
           (case drop 9 t of
              c # d # _ \<Rightarrow> c \<in> set ''abc'' \<and> d = CHR '':''
            | _ \<Rightarrow> False))
      \<or> (startswith t ''phase '' \<and>
           takeWhile (\<lambda>c. c \<in> set ''ivx'') (drop 6 t) \<noteq> [] \<and>
           startswith (dropWhile (\<lambda>c. c \<in> set ''ivx'') (drop 6 t)) '':'')
      \<or> startswith t ''the business plan'')"

text \<open>\<^verbatim>\<open>re.match(r'^(Approach and|Evaluation and)', text, re.I)\<close>\<close>

definition re_approach_evaluation :: "string \<Rightarrow> bool" where
  "re_approach_evaluation text =
     (startswith (lower text) ''approach and'' \<or> startswith (lower text) ''evaluation and'')"

text \<open>\<^verbatim>\<open>re.match(r'^\d+\.', text)\<close>\<close>

definition re_digits_dot :: "string \<Rightarrow> bool" where
  "re_digits_dot text =
     (takeWhile isdigit text \<noteq> [] \<and> startswith (dropWhile isdigit text) ''.'')"

text \<open>\<^verbatim>\<open>re.match(r'^\d+\.\s+[A-Z]', text)\<close>\<close>

definition re_numbered :: "string \<Rightarrow> bool" where
  "re_numbered text =
     (re_digits_dot text \<and>
      (let rest = drop 1 (dropWhile isdigit text) in
         takeWhile isspace rest \<noteq> [] \<and>
         (case dropWhile isspace rest of [] \<Rightarrow> False | c # _ \<Rightarrow> isupper_az c)))"

text \<open>\<^verbatim>\<open>re.search(r'@|\d{4}|phone|email|fax|mail', t)\<close>\<close>

fun digits4_in :: "string \<Rightarrow> bool" where
  "digits4_in (a # b # c # d # cs) =
     ((isdigit a \<and> isdigit b \<and> isdigit c \<and> isdigit d) \<or> digits4_in (b # c # d # cs))"
| "digits4_in _ = False"

definition re_contact :: "string \<Rightarrow> bool" where
  "re_contact t =
     (substr_in ''@'' t \<or> digits4_in t \<or> substr_in ''phone'' t \<or> substr_in ''email'' t \<or>
      substr_in ''fax'' t \<or> substr_in ''mail'' t)"

subsection \<open>The run classifier\<close>

definition principle_patterns :: "string list" where
  "principle_patterns =
     [''Equitable access'', ''Shared decision-making'', ''Shared governance'',
      ''Shared funding'', ''Local points'', ''Access:'', ''Guidance and Advice:'',
      ''Training:'', ''Provincial Purchasing'', ''Technological Support:'']"

definition is_structural_heading :: "string \<Rightarrow> bool" where
  "is_structural_heading text0 =
     (let text = strip text0 in
        if re_main_section text then True
        else if re_appendix_phase_plan text then True
        else if re_approach_evaluation text then True
        else if re_numbered text then True
        else if list_ex (\<lambda>pattern. substr_in pattern text) principle_patterns then True
        else if startswith text ''For each'' \<and> endswith text '':'' then True
        else if substr_in ''Ontario'' text \<and> substr_in ''Digital Library'' text \<and>
                length text > 15 then True
        else if substr_in ''Critical Component'' text \<or>
                substr_in ''Road Map to Prosperity'' text then True
        else if startswith text ''What could the ODL'' then True
        else False)"

definition prose_phrases :: "string list" where
  "prose_phrases =
     [''the purpose of this'', ''will be expected to'', ''must be received by'',
      ''please note that'', ''if you require'', ''specifically,'', ''given the'',
      ''for example,'', ''however,'', ''although'', ''in addition to'']"

definition is_body_text :: "string \<Rightarrow> bool" where
  "is_body_text text0 =
     (let text = strip text0 in
        if length text > 100 then True
        else if endswith text ''.'' \<and> length text > 20 then True
        else if list_ex (\<lambda>phrase. substr_in phrase (lower text)) prose_phrases then True
        else if re_contact (lower text) then True
        else if startswith text ''-'' \<and> length text > 30 then True
        else False)"

datatype level = H1 | H2 | H3 | H4

record font_stats =
  large_size :: rat
  medium_size :: rat
  body_size :: rat

definition level_patterns :: "string list" where
  "level_patterns =
     [''Equitable access'', ''Shared decision'', ''Shared governance'',
      ''Shared funding'', ''Local points'', ''Access:'', ''Guidance'',
      ''Training:'', ''Provincial'', ''Technological'', ''What could'']"

definition get_heading_level :: "string \<Rightarrow> rat \<Rightarrow> font_stats \<Rightarrow> level option" where
  "get_heading_level text0 sz fs =
     (let text = strip text0 in
        if sz \<ge> large_size fs \<and>
           (substr_in ''Digital Library'' text \<or> substr_in ''Critical Component'' text)
        then Some H1
        else if text \<in> set [''Summary'', ''Background''] \<or>
                startswith text ''The Business Plan'' \<or>
                startswith text ''Approach and'' \<or>
                startswith text ''Evaluation and'' \<or>
                startswith text ''Appendix''
        then Some H2
        else if startswith text ''Timeline'' \<or> startswith text ''Milestones'' \<or>
                startswith text ''Phase'' \<or> re_digits_dot text \<or>
                list_ex (\<lambda>p. substr_in p text) level_patterns
        then Some H3
        else if startswith text ''For each'' \<and> endswith text '':''
        then Some H4
        else if sz \<ge> large_size fs then Some H1
        else if sz \<ge> medium_size fs then Some H2
        else None)"

subsection \<open>The font profile\<close>

text \<open>One entry of \<^verbatim>\<open>all_lines\<close>.\<close>

record text_line =
  l_text :: string
  l_size :: rat
  l_bold :: bool
  l_page :: int

text \<open>\<^verbatim>\<open>size_counts[k] += 1\<close> on a \<^verbatim>\<open>defaultdict(int)\<close>: the dictionary keeps its keys
  in insertion order, so it is an association list with a new key added at the end.\<close>

fun bump :: "rat \<Rightarrow> (rat \<times> int) list \<Rightarrow> (rat \<times> int) list" where
  "bump k [] = [(k, 1)]"
| "bump k ((k', n) # kvs) = (if k = k' then (k', n + 1) # kvs else (k', n) # bump k kvs)"

text \<open>\<^verbatim>\<open>sorted\<close> is stable, as is \<^const>\<open>sort_key\<close>; the key
  \<^verbatim>\<open>(-x[1], -x[0])\<close> is compared as a tuple, lexicographically.\<close>

definition analyze_fonts :: "(rat \<Rightarrow> rat) \<Rightarrow> text_line list \<Rightarrow> font_stats" where
  "analyze_fonts round1 lines =
     (let sizes = map l_size lines;
          size_counts = fold (\<lambda>sz counts. bump (round1 sz) counts) sizes [];
          sorted_sizes = sort_key (\<lambda>x. (- snd x, - fst x)) size_counts
      in \<lparr>large_size = (if sorted_sizes \<noteq> [] then fst (sorted_sizes ! 0) else 14),
          medium_size = (if length sorted_sizes > 1 then fst (sorted_sizes ! 1) else 12),
          body_size = (if length sorted_sizes > 2 then fst (sorted_sizes ! 2) else 11)\<rparr>)"

subsection \<open>Title and outline\<close>

record entry =
  e_level :: level
  e_text :: string
  e_page :: int

record outline_result =
  title :: string
  outline :: "entry list"

text \<open>The body of the loop \<^verbatim>\<open>for line in all_lines\<close>, on the state
  \<^verbatim>\<open>(outline, seen)\<close>.\<close>

definition scan_step :: "font_stats \<Rightarrow> text_line \<Rightarrow> entry list \<times> string set \<Rightarrow> entry list \<times> string set" where
  "scan_step fs line st =
     (let text = clean (l_text line) in
        if text \<in> snd st \<or> length text < 4 \<or> is_body_text text \<or> \<not> is_structural_heading text
        then st
        else (case get_heading_level text (l_size line) fs of
                None \<Rightarrow> st
              | Some lv \<Rightarrow>
                  (fst st @ [\<lparr>e_level = lv, e_text = text, e_page = l_page line\<rparr>],
                   insert text (snd st))))"

definition scan :: "font_stats \<Rightarrow> text_line list \<Rightarrow> entry list \<times> string set \<Rightarrow> entry list \<times> string set" where
  "scan fs lines st = fold (scan_step fs) lines st"

text \<open>The condition of the list comprehension \<^verbatim>\<open>page1_large\<close>.\<close>

definition page1_large_cond :: "font_stats \<Rightarrow> text_line \<Rightarrow> bool" where
  "page1_large_cond fs l =
     (l_page l = 1 \<and> l_size l \<ge> medium_size fs \<and> \<not> is_body_text (l_text l))"

text \<open>\<^verbatim>\<open>extract_outline\<close> from \<^verbatim>\<open>font_stats = analyze_fonts(all_lines)\<close> on.\<close>

definition build_outline :: "(rat \<Rightarrow> rat) \<Rightarrow> text_line list \<Rightarrow> outline_result" where
  "build_outline round1 all_lines =
     (let fs = analyze_fonts round1 all_lines;
          page1_large = take 3 (filter (page1_large_cond fs) all_lines);
          ttl = clean (join_sp (map l_text page1_large));
          st = scan fs all_lines ([], {})
      in \<lparr>title = (if ttl \<noteq> [] then ttl else ''Untitled''), outline = fst st\<rparr>)"

subsection \<open>Reading the lines of a document\<close>

text \<open>What \<^verbatim>\<open>page.get_text("dict")\<close> gives: a page is a list of blocks, a block has a
  list of lines or none (an image block), a line is its list of spans.\<close>

record span =
  s_text :: string
  s_size :: rat
  s_flags :: int

type_synonym pdf_block = "span list list option"

unbundle bit_operations_syntax

definition line_of :: "nat \<Rightarrow> span list \<Rightarrow> text_line option" where
  "line_of page_num spans =
     (if spans = [] then None
      else let text_parts = map s_text (filter (\<lambda>sp. strip (s_text sp) \<noteq> []) spans)
           in if text_parts = [] then None
              else Some \<lparr>l_text = clean (join_sp text_parts),
                         l_size = fold max (map s_size (tl spans)) (s_size (hd spans)),
                         l_bold = list_ex (\<lambda>sp. s_flags sp AND 16 \<noteq> 0) spans,
                         l_page = int page_num + 1\<rparr>)"

definition block_lines :: "nat \<Rightarrow> pdf_block \<Rightarrow> text_line list" where
  "block_lines page_num block =
     (case block of None \<Rightarrow> [] | Some lines \<Rightarrow> List.map_filter (line_of page_num) lines)"

definition collect_lines :: "pdf_block list list \<Rightarrow> text_line list" where
  "collect_lines doc =
     concat (map (\<lambda>(page_num, blocks). concat (map (block_lines page_num) blocks))
                 (enumerate 0 doc))"

definition extract_outline :: "(rat \<Rightarrow> rat) \<Rightarrow> pdf_block list list \<Rightarrow> outline_result" where
  "extract_outline round1 doc = build_outline round1 (collect_lines doc)"

text \<open>Rounding to one decimal place on exact values, halves to the even digit: what
  \<^verbatim>\<open>round(x, 1)\<close> returns on a float whose value has at most one decimal digit, and
  the instance of \<open>round1\<close> used in the examples.\<close>

definition round_dec1 :: "rat \<Rightarrow> rat" where
  "round_dec1 x =
     (let y = x * 10; f = \<lfloor>y\<rfloor>; d = y - of_int f
      in of_int (if d < 1 / 2 then f else if d > 1 / 2 then f + 1
                 else if even f then f else f + 1) / 10)"

subsection \<open>Notions used to state the properties\<close>

text \<open>A line passes every gate of the loop body but the \<^verbatim>\<open>seen\<close> test and is given a
  level.\<close>

definition emits :: "font_stats \<Rightarrow> text_line \<Rightarrow> bool" where
  "emits fs l =
     (let text = clean (l_text l) in
        length text \<ge> 4 \<and> \<not> is_body_text text \<and> is_structural_heading text \<and>
        get_heading_level text (l_size l) fs \<noteq> None)"

text \<open>The entry the loop body appends for a line.\<close>

definition entry_of :: "font_stats \<Rightarrow> text_line \<Rightarrow> entry" where
  "entry_of fs l =
     \<lparr>e_level = the (get_heading_level (clean (l_text l)) (l_size l) fs),
      e_text = clean (l_text l), e_page = l_page l\<rparr>"

text \<open>The loop invariant relating \<^verbatim>\<open>seen\<close> to \<^verbatim>\<open>outline\<close>.\<close>

definition seen_inv :: "entry list \<times> string set \<Rightarrow> bool" where
  "seen_inv st = (snd st = set (map e_text (fst st)))"

text \<open>A line with its bold flag erased.\<close>

definition unbold :: "text_line \<Rightarrow> text_line" where
  "unbold l = l\<lparr>l_bold := False\<rparr>"

text \<open>A stream in which a heading text occurs first at a size below the medium tier and
  again, on the next page, at the large size.\<close>

definition repeated_heading_lines :: "text_line list" where
  "repeated_heading_lines =
     [\<lparr>l_text = ''Road Map to Prosperity'', l_size = 10, l_bold = False, l_page = 1\<rparr>,
      \<lparr>l_text = ''first note'', l_size = 14, l_bold = False, l_page = 1\<rparr>,
      \<lparr>l_text = ''second note'', l_size = 12, l_bold = False, l_page = 1\<rparr>,
      \<lparr>l_text = ''third note'', l_size = 12, l_bold = False, l_page = 2\<rparr>,
      \<lparr>l_text = ''Road Map to Prosperity'', l_size = 14, l_bold = True, l_page = 2\<rparr>]"

text \<open>A page-ordered stream with two headings, and a stream of prose only.\<close>

definition two_page_lines :: "text_line list" where
  "two_page_lines =
     [\<lparr>l_text = ''Summary'', l_size = 14, l_bold = True, l_page = 1\<rparr>,
      \<lparr>l_text = ''Some ordinary words'', l_size = 11, l_bold = False, l_page = 1\<rparr>,
      \<lparr>l_text = ''1.  Introduction'', l_size = 12, l_bold = False, l_page = 2\<rparr>]"

definition prose_lines :: "text_line list" where
  "prose_lines =
     [\<lparr>l_text = ''Some ordinary words'', l_size = 11, l_bold = False, l_page = 2\<rparr>,
      \<lparr>l_text = ''and a few more'', l_size = 11, l_bold = False, l_page = 2\<rparr>]"

text \<open>The texts \<^const>\<open>clean\<close> returns: every whitespace character is a single space
  followed by a character that is not whitespace, and the first character is not
  whitespace.\<close>

fun nf_body :: "string \<Rightarrow> bool" where
  "nf_body [] = True"
| "nf_body (c # cs) =
     (if isspace c then c = CHR '' '' \<and> cs \<noteq> [] \<and> \<not> isspace (hd cs) \<and> nf_body cs
      else nf_body cs)"

definition normal_text :: "string \<Rightarrow> bool" where
  "normal_text s = (nf_body s \<and> (s = [] \<or> \<not> isspace (hd s)))"

text \<open>A first page with five title candidates.\<close>

definition title_lines :: "text_line list" where
  "title_lines =
     [\<lparr>l_text = ''Ontario Libraries'', l_size = 14, l_bold = True, l_page = 1\<rparr>,
      \<lparr>l_text = ''fine print'', l_size = 9, l_bold = False, l_page = 1\<rparr>,
      \<lparr>l_text = ''Working Together'', l_size = 14, l_bold = False, l_page = 1\<rparr>,
      \<lparr>l_text = ''A Plan'', l_size = 12, l_bold = False, l_page = 1\<rparr>,
      \<lparr>l_text = ''Second Edition'', l_size = 12, l_bold = False, l_page = 1\<rparr>,
      \<lparr>l_text = ''more fine print'', l_size = 9, l_bold = False, l_page = 2\<rparr>]"

text \<open>Level assignment as an ordered list of rules, the first matching rule giving the
  level. The rule for H3 has two parameters: the test for a numbered text and the
  vocabulary.\<close>

fun first_match :: "(('a \<Rightarrow> bool) \<times> 'b) list \<Rightarrow> 'a \<Rightarrow> 'b option" where
  "first_match [] x = None"
| "first_match ((p, r) # rules) x = (if p x then Some r else first_match rules x)"

definition level_rules ::
  "(string \<Rightarrow> bool) \<Rightarrow> string list \<Rightarrow> rat \<Rightarrow> font_stats \<Rightarrow> ((string \<Rightarrow> bool) \<times> level) list" where
  "level_rules numbered vocabulary sz fs =
     [(\<lambda>t. sz \<ge> large_size fs \<and>
            (substr_in ''Digital Library'' t \<or> substr_in ''Critical Component'' t), H1),
      (\<lambda>t. t = ''Summary'' \<or> t = ''Background'' \<or> startswith t ''The Business Plan'' \<or>
            startswith t ''Approach and'' \<or> startswith t ''Evaluation and'' \<or>
            startswith t ''Appendix'', H2),
      (\<lambda>t. startswith t ''Timeline'' \<or> startswith t ''Milestones'' \<or> startswith t ''Phase'' \<or>
            numbered t \<or> list_ex (\<lambda>p. substr_in p t) vocabulary, H3),
      (\<lambda>t. startswith t ''For each'' \<and> endswith t '':'', H4),
      (\<lambda>t. sz \<ge> large_size fs, H1),
      (\<lambda>t. sz \<ge> medium_size fs, H2)]"

text \<open>The level assignment of the specification: H3 for the numbered-section pattern and
  for the vocabulary of the structural test, with \<open>What could\<close>.\<close>

definition claimed_heading_level :: "string \<Rightarrow> rat \<Rightarrow> font_stats \<Rightarrow> level option" where
  "claimed_heading_level t sz fs =
     first_match (level_rules re_numbered (principle_patterns @ [''What could'']) sz fs) t"

text \<open>The same with digits followed by a period for the numbered test, and with the
  shorter terms of the level stage.\<close>

definition amended_heading_level :: "string \<Rightarrow> rat \<Rightarrow> font_stats \<Rightarrow> level option" where
  "amended_heading_level t sz fs =
     first_match (level_rules re_digits_dot
        [''Equitable access'', ''Shared decision'', ''Shared governance'', ''Shared funding'',
         ''Local points'', ''Access:'', ''Guidance'', ''Training:'', ''Provincial'',
         ''Technological'', ''What could''] sz fs) t"

text \<open>The font profile in the words of the specification: the distinct rounded sizes,
  ordered by descending number of occurrences and then by descending size; the first
  three are the tiers, with 14, 12 and 11 for the missing ones.\<close>

definition rank_key :: "rat list \<Rightarrow> rat \<Rightarrow> int \<times> rat" where
  "rank_key rs s = (- int (count_list rs s), - s)"

definition ranked_sizes :: "(rat \<Rightarrow> rat) \<Rightarrow> text_line list \<Rightarrow> rat list" where
  "ranked_sizes round1 lines =
     (let rs = map (\<lambda>l. round1 (l_size l)) lines
      in sort_key (rank_key rs) (remdups rs))"

definition spec_font_profile :: "(rat \<Rightarrow> rat) \<Rightarrow> text_line list \<Rightarrow> font_stats" where
  "spec_font_profile round1 lines =
     (case ranked_sizes round1 lines of
        [] \<Rightarrow> \<lparr>large_size = 14, medium_size = 12, body_size = 11\<rparr>
      | [a] \<Rightarrow> \<lparr>large_size = a, medium_size = 12, body_size = 11\<rparr>
      | [a, b] \<Rightarrow> \<lparr>large_size = a, medium_size = b, body_size = 11\<rparr>
      | a # b # c # _ \<Rightarrow> \<lparr>large_size = a, medium_size = b, body_size = c\<rparr>)"

text \<open>The dictionary \<^verbatim>\<open>size_counts\<close> after the counting loop over the rounded sizes.\<close>

definition size_counts :: "rat list \<Rightarrow> (rat \<times> int) list" where
  "size_counts rs = fold bump rs []"

section \<open>Properties\<close>

subsection \<open>The scan loop\<close>

lemma scan_Nil: "scan fs [] st = st" by (simp add: scan_def)
lemma scan_Cons: "scan fs (l # ls) st = scan fs ls (scan_step fs l st)" by (simp add: scan_def)
lemma scan_append: "scan fs (xs @ ys) st = scan fs ys (scan fs xs st)" by (simp add: scan_def)

lemma scan_step_cases:
  "scan_step fs l (out, seen) =
     (if emits fs l \<and> clean (l_text l) \<notin> seen
      then (out @ [entry_of fs l], insert (clean (l_text l)) seen)
      else (out, seen))"
  by (auto simp: scan_step_def emits_def entry_of_def Let_def split: option.splits)

lemma scan_step_emit:
  "emits fs l \<Longrightarrow> clean (l_text l) \<notin> snd st \<Longrightarrow>
   scan_step fs l st = (fst st @ [entry_of fs l], insert (clean (l_text l)) (snd st))"
  by (cases st) (simp add: scan_step_cases)

lemma scan_step_skip:
  "\<not> (emits fs l \<and> clean (l_text l) \<notin> snd st) \<Longrightarrow> scan_step fs l st = st"
  by (cases st) (simp add: scan_step_cases)

lemma scan_step_inv: "seen_inv st \<Longrightarrow> seen_inv (scan_step fs l st)"
proof (cases "emits fs l \<and> clean (l_text l) \<notin> snd st")
  case True
  assume "seen_inv st"
  then show ?thesis using True by (simp add: scan_step_emit seen_inv_def entry_of_def)
next
  case False
  assume "seen_inv st"
  then show ?thesis using False by (simp add: scan_step_skip)
qed

lemma scan_inv: "seen_inv st \<Longrightarrow> seen_inv (scan fs ls st)"
  by (induction ls arbitrary: st) (simp_all add: scan_Nil scan_Cons scan_step_inv)

lemma scan_filter:
  "seen_inv st \<Longrightarrow>
   filter (\<lambda>e. e_text e = t) (fst (scan fs ls st)) =
     filter (\<lambda>e. e_text e = t) (fst st) @
     (if t \<in> snd st then []
      else case find (\<lambda>l. emits fs l \<and> clean (l_text l) = t) ls of
             None \<Rightarrow> [] | Some l \<Rightarrow> [entry_of fs l])"
proof (induction ls arbitrary: st)
  case Nil then show ?case by (simp add: scan_Nil)
next
  case (Cons l ls)
  show ?case
  proof (cases "emits fs l \<and> clean (l_text l) \<notin> snd st")
    case True
    let ?st = "(fst st @ [entry_of fs l], insert (clean (l_text l)) (snd st))"
    have st: "scan_step fs l st = ?st" using True by (simp add: scan_step_emit)
    have inv: "seen_inv ?st" using scan_step_inv[OF Cons.prems, of fs l] st by simp
    have nin: "t \<notin> snd st \<Longrightarrow> filter (\<lambda>e. e_text e = t) (fst st) = []"
      using Cons.prems by (auto simp: seen_inv_def filter_empty_conv)
    show ?thesis
    proof (cases "clean (l_text l) = t")
      case eq: True
      then show ?thesis using Cons.IH[OF inv] True nin
        by (simp add: scan_Cons st entry_of_def)
    next
      case neq: False
      then show ?thesis using Cons.IH[OF inv] True
        by (simp add: scan_Cons st entry_of_def)
    qed
  next
    case False
    have st: "scan_step fs l st = st" using False by (simp add: scan_step_skip)
    show ?thesis
      using Cons.IH[OF Cons.prems] False
      by (auto simp: scan_Cons st)
  qed
qed

lemma scan_distinct:
  "seen_inv st \<Longrightarrow> distinct (map e_text (fst st)) \<Longrightarrow>
   distinct (map e_text (fst (scan fs ls st)))"
proof (induction ls arbitrary: st)
  case Nil then show ?case by (simp add: scan_Nil)
next
  case (Cons l ls)
  show ?case
  proof (cases "emits fs l \<and> clean (l_text l) \<notin> snd st")
    case True
    let ?st = "(fst st @ [entry_of fs l], insert (clean (l_text l)) (snd st))"
    have st: "scan_step fs l st = ?st" using True by (simp add: scan_step_emit)
    have inv: "seen_inv ?st" using scan_step_inv[OF Cons.prems(1), of fs l] st by simp
    have d: "distinct (map e_text (fst ?st))"
      using Cons.prems True by (auto simp: entry_of_def seen_inv_def)
    show ?thesis using Cons.IH[OF inv d] by (simp add: scan_Cons st)
  next
    case False
    have st: "scan_step fs l st = st" using False by (simp add: scan_step_skip)
    show ?thesis using Cons.IH[OF Cons.prems] by (simp add: scan_Cons st)
  qed
qed

lemma scan_sorted:
  "sorted (map e_page (fst st) @ map l_page ls) \<Longrightarrow>
   sorted (map e_page (fst (scan fs ls st)))"
proof (induction ls arbitrary: st)
  case Nil then show ?case by (simp add: scan_Nil)
next
  case (Cons l ls)
  show ?case
  proof (cases "emits fs l \<and> clean (l_text l) \<notin> snd st")
    case True
    let ?st = "(fst st @ [entry_of fs l], insert (clean (l_text l)) (snd st))"
    have st: "scan_step fs l st = ?st" using True by (simp add: scan_step_emit)
    have "sorted (map e_page (fst ?st) @ map l_page ls)"
      using Cons.prems by (simp add: entry_of_def)
    from Cons.IH[OF this] show ?thesis by (simp add: scan_Cons st)
  next
    case False
    have st: "scan_step fs l st = st" using False by (simp add: scan_step_skip)
    have "sorted (map e_page (fst st) @ map l_page ls)"
      using Cons.prems by (auto simp: sorted_append)
    from Cons.IH[OF this] show ?thesis by (simp add: scan_Cons st)
  qed
qed

lemma scan_entries:
  "e \<in> set (fst (scan fs ls st)) \<Longrightarrow>
   e \<in> set (fst st) \<or> (\<exists>l \<in> set ls. emits fs l \<and> e = entry_of fs l)"
proof (induction ls arbitrary: st)
  case Nil then show ?case by (simp add: scan_Nil)
next
  case (Cons l ls)
  show ?case
  proof (cases "emits fs l \<and> clean (l_text l) \<notin> snd st")
    case True
    let ?st = "(fst st @ [entry_of fs l], insert (clean (l_text l)) (snd st))"
    have st: "scan_step fs l st = ?st" using True by (simp add: scan_step_emit)
    from Cons.IH[of ?st] Cons.prems True
    show ?thesis by (auto simp: scan_Cons st)
  next
    case False
    have st: "scan_step fs l st = st" using False by (simp add: scan_step_skip)
    from Cons.IH[of st] Cons.prems show ?thesis by (auto simp: scan_Cons st)
  qed
qed


lemma emits_not_body: "emits fs l \<Longrightarrow> \<not> is_body_text (clean (l_text l))"
  by (simp add: emits_def Let_def)

lemma emits_structural: "emits fs l \<Longrightarrow> is_structural_heading (clean (l_text l))"
  by (simp add: emits_def Let_def)

lemma outline_build: "outline (build_outline round1 lines) = fst (scan (analyze_fonts round1 lines) lines ([], {}))"
  by (simp add: build_outline_def Let_def)

lemma seen_inv_init: "seen_inv ([], {})" by (simp add: seen_inv_def)

subsection \<open>Body-text rejection\<close>

text \<open>Claim C1: a line whose normalized text is body text (\<^const>\<open>is_body_text\<close>: longer
  than 100 characters, a sentence ending in a period, a prose phrase, contact or date
  noise, a long bullet) produces no entry, whether or not the text is structural: the loop
  body leaves the state as it is, and no entry of the outline of any stream carries that
  text.\<close>

theorem body_text_never_outlined:
  "is_body_text (clean (l_text l)) \<Longrightarrow>
     scan_step fs l st = st \<and>
     clean (l_text l) \<notin> set (map e_text (outline (build_outline round1 lines)))"
proof
  assume b: "is_body_text (clean (l_text l))"
  then have "\<not> emits fs l" using emits_not_body by blast
  then show "scan_step fs l st = st" by (simp add: scan_step_skip)
  show "clean (l_text l) \<notin> set (map e_text (outline (build_outline round1 lines)))"
  proof
    assume "clean (l_text l) \<in> set (map e_text (outline (build_outline round1 lines)))"
    then obtain e where e: "e \<in> set (fst (scan (analyze_fonts round1 lines) lines ([], {})))"
      and t: "e_text e = clean (l_text l)" by (auto simp: outline_build)
    from scan_entries[OF e] obtain l' where "emits (analyze_fonts round1 lines) l'"
      and "e = entry_of (analyze_fonts round1 lines) l'" by auto
    then have "\<not> is_body_text (e_text e)" using emits_not_body by (simp add: entry_of_def)
    with b t show False by simp
  qed
qed

theorem body_text_never_outlined_witness:
  "is_body_text (clean (''1. A'' @ replicate 146 CHR ''a'')) \<and>
   is_structural_heading (clean (''1. A'' @ replicate 146 CHR ''a'')) \<and>
   length (clean (''1. A'' @ replicate 146 CHR ''a'')) = 150 \<and>
   scan_step \<lparr>large_size = 14, medium_size = 12, body_size = 11\<rparr>
     \<lparr>l_text = ''1. A'' @ replicate 146 CHR ''a'', l_size = 14, l_bold = False, l_page = 1\<rparr> ([], {}) = ([], {}) \<and>
   clean (''1. A'' @ replicate 146 CHR ''a'') \<notin> set (map e_text (outline (build_outline round_dec1
     [\<lparr>l_text = ''1. A'' @ replicate 146 CHR ''a'', l_size = 14, l_bold = False, l_page = 1\<rparr>])))"
proof -
  let ?l = "\<lparr>l_text = ''1. A'' @ replicate 146 CHR ''a'', l_size = 14, l_bold = False, l_page = 1\<rparr>"
  have b: "is_body_text (clean (l_text ?l))" by code_simp
  have s: "is_structural_heading (clean (''1. A'' @ replicate 146 CHR ''a''))" by code_simp
  have n: "length (clean (''1. A'' @ replicate 146 CHR ''a'')) = 150" by code_simp
  from body_text_never_outlined[OF b, of "\<lparr>large_size = 14, medium_size = 12, body_size = 11\<rparr>" "([], {})" round_dec1 "[?l]"]
  show ?thesis using b s n by simp
qed

subsection \<open>Deduplication\<close>

text \<open>Claim C3 as stated fails: in \<^const>\<open>repeated_heading_lines\<close> the structural text
  of the first line, on page 1, occurs again on page 2, and the single entry with that
  text has page 2, since the first occurrence is below the medium size and gets no
  level.\<close>

theorem dedup_first_occurrence_counterexample:
  "is_structural_heading (clean (l_text (repeated_heading_lines ! 0))) \<and>
   \<not> is_body_text (clean (l_text (repeated_heading_lines ! 0))) \<and>
   l_text (repeated_heading_lines ! 4) = l_text (repeated_heading_lines ! 0) \<and>
   l_page (repeated_heading_lines ! 0) = 1 \<and>
   l_page (repeated_heading_lines ! 4) = 2 \<and>
   map e_page (filter (\<lambda>e. e_text e = clean (l_text (repeated_heading_lines ! 0)))
                 (outline (build_outline round_dec1 repeated_heading_lines))) = [2]"
  unfolding repeated_heading_lines_def by code_simp

text \<open>Claim C3, amended: the texts of the entries are pairwise distinct, and for every text
  the outline has no entry with it when no line with that normalized text passes the gates
  and is given a level, and otherwise exactly one entry, the one made from the first such
  line in document order (so with that line's page).\<close>

theorem dedup_first_levelled_occurrence:
  "distinct (map e_text (outline (build_outline round1 lines))) \<and>
   filter (\<lambda>e. e_text e = t) (outline (build_outline round1 lines)) =
     (case find (\<lambda>l. emits (analyze_fonts round1 lines) l \<and> clean (l_text l) = t) lines of
        None \<Rightarrow> []
      | Some l \<Rightarrow> [entry_of (analyze_fonts round1 lines) l])"
  using scan_distinct[OF seen_inv_init, of "analyze_fonts round1 lines" lines]
        scan_filter[OF seen_inv_init, of t "analyze_fonts round1 lines" lines]
  by (simp add: outline_build)

theorem dedup_first_levelled_occurrence_witness:
  "distinct (map e_text (outline (build_outline round_dec1 repeated_heading_lines))) \<and>
   filter (\<lambda>e. e_text e = ''Road Map to Prosperity'') (outline (build_outline round_dec1 repeated_heading_lines)) =
     [\<lparr>e_level = H1, e_text = ''Road Map to Prosperity'', e_page = 2\<rparr>]"
proof -
  have f: "find (\<lambda>l. emits (analyze_fonts round_dec1 repeated_heading_lines) l \<and> clean (l_text l) = ''Road Map to Prosperity'') repeated_heading_lines
      = Some (repeated_heading_lines ! 4)"
    unfolding repeated_heading_lines_def by code_simp
  have e: "entry_of (analyze_fonts round_dec1 repeated_heading_lines) (repeated_heading_lines ! 4)
      = \<lparr>e_level = H1, e_text = ''Road Map to Prosperity'', e_page = 2\<rparr>"
    unfolding repeated_heading_lines_def by code_simp
  show ?thesis
    using dedup_first_levelled_occurrence[of round_dec1 repeated_heading_lines "''Road Map to Prosperity''"]
    by (simp only: f e option.case) 
qed


subsection \<open>Scan order\<close>

text \<open>Claim C7: when the pages of the lines are in non-decreasing order, so are the pages
  of the entries of the outline.\<close>

theorem pages_nondecreasing:
  "sorted (map l_page lines) \<Longrightarrow> sorted (map e_page (outline (build_outline round1 lines)))"
  using scan_sorted[of "([], {})" lines "analyze_fonts round1 lines"]
  by (simp add: outline_build)

theorem pages_nondecreasing_witness:
  "sorted (map l_page two_page_lines) \<and>
   map e_page (outline (build_outline round_dec1 two_page_lines)) = [1, 2] \<and>
   sorted (map e_page (outline (build_outline round_dec1 two_page_lines)))"
proof -
  have s: "sorted (map l_page two_page_lines)" by (simp add: two_page_lines_def)
  have p: "map e_page (outline (build_outline round_dec1 two_page_lines)) = [1, 2]"
    unfolding two_page_lines_def by code_simp
  from pages_nondecreasing[OF s, of round_dec1] s p show ?thesis by simp
qed

subsection \<open>Degenerate inputs\<close>

lemma scan_no_structural:
  "\<forall>l \<in> set ls. \<not> is_structural_heading (clean (l_text l)) \<Longrightarrow> scan fs ls st = st"
proof (induction ls)
  case Nil then show ?case by (simp add: scan_Nil)
next
  case (Cons l ls)
  then have "\<not> emits fs l" using emits_structural by auto
  then have "scan_step fs l st = st" by (simp add: scan_step_skip)
  with Cons show ?case by (simp add: scan_Cons)
qed

lemma clean_Nil: "clean [] = []" by (simp add: clean_def strip_def)

text \<open>Claim C8: the empty stream gives the title \<open>Untitled\<close> and no entries; a stream with
  no title candidate gives the title \<open>Untitled\<close>; a stream with no structural line
  gives no entries. The model has no failing branch: the source raises nowhere in these
  functions.\<close>

theorem degenerate_inputs:
  "build_outline round1 [] = \<lparr>title = ''Untitled'', outline = []\<rparr> \<and>
   (filter (page1_large_cond (analyze_fonts round1 lines)) lines = [] \<longrightarrow>
      title (build_outline round1 lines) = ''Untitled'') \<and>
   ((\<forall>l \<in> set lines. \<not> is_structural_heading (clean (l_text l))) \<longrightarrow>
      outline (build_outline round1 lines) = [])"
proof (intro conjI impI)
  show "build_outline round1 [] = \<lparr>title = ''Untitled'', outline = []\<rparr>"
    by (simp add: build_outline_def Let_def scan_Nil clean_Nil)
  show "title (build_outline round1 lines) = ''Untitled''"
    if "filter (page1_large_cond (analyze_fonts round1 lines)) lines = []"
    using that by (simp add: build_outline_def Let_def clean_Nil)
  show "outline (build_outline round1 lines) = []"
    if "\<forall>l \<in> set lines. \<not> is_structural_heading (clean (l_text l))"
    using scan_no_structural[OF that] by (simp add: outline_build)
qed

theorem degenerate_inputs_witness:
  "build_outline round_dec1 [] = \<lparr>title = ''Untitled'', outline = []\<rparr> \<and>
   filter (page1_large_cond (analyze_fonts round_dec1 prose_lines)) prose_lines = [] \<and>
   list_all (\<lambda>l. \<not> is_structural_heading (clean (l_text l))) prose_lines \<and>
   build_outline round_dec1 prose_lines = \<lparr>title = ''Untitled'', outline = []\<rparr>"
proof -
  have f: "filter (page1_large_cond (analyze_fonts round_dec1 prose_lines)) prose_lines = []"
    unfolding prose_lines_def by code_simp
  have a: "list_all (\<lambda>l. \<not> is_structural_heading (clean (l_text l))) prose_lines"
    unfolding prose_lines_def by code_simp
  then have b: "\<forall>l \<in> set prose_lines. \<not> is_structural_heading (clean (l_text l))"
    by (simp add: list_all_iff)
  have "title (build_outline round_dec1 prose_lines) = ''Untitled''"
    and "outline (build_outline round_dec1 prose_lines) = []"
    and "build_outline round_dec1 [] = \<lparr>title = ''Untitled'', outline = []\<rparr>"
    using degenerate_inputs[of round_dec1 prose_lines] f b by blast+
  then show ?thesis using f a by simp
qed

subsection \<open>The seen set\<close>

text \<open>Claim C9: after any number of lines of the scan, \<^verbatim>\<open>seen\<close> is the set of the
  texts of the entries appended so far; and a line that is given no level leaves the state,
  so also \<^verbatim>\<open>seen\<close>, as it is, so that a later line with the same text can still
  produce the entry, with its own page.\<close>

theorem seen_set_invariant:
  "seen_inv (scan fs (take n lines) ([], {})) \<and>
   (get_heading_level (clean (l_text l)) (l_size l) fs = None \<longrightarrow> scan_step fs l st = st)"
proof
  show "seen_inv (scan fs (take n lines) ([], {}))" by (rule scan_inv[OF seen_inv_init])
  show "get_heading_level (clean (l_text l)) (l_size l) fs = None \<longrightarrow> scan_step fs l st = st"
    by (simp add: scan_step_skip emits_def Let_def)
qed

theorem seen_set_invariant_witness:
  "is_structural_heading (clean (l_text (repeated_heading_lines ! 0))) \<and>
   \<not> is_body_text (clean (l_text (repeated_heading_lines ! 0))) \<and>
   get_heading_level (clean (l_text (repeated_heading_lines ! 0))) (l_size (repeated_heading_lines ! 0))
     (analyze_fonts round_dec1 repeated_heading_lines) = None \<and>
   scan_step (analyze_fonts round_dec1 repeated_heading_lines) (repeated_heading_lines ! 0) ([], {}) = ([], {}) \<and>
   seen_inv (scan (analyze_fonts round_dec1 repeated_heading_lines) (take 5 repeated_heading_lines) ([], {})) \<and>
   scan (analyze_fonts round_dec1 repeated_heading_lines) repeated_heading_lines ([], {}) =
     ([\<lparr>e_level = H1, e_text = ''Road Map to Prosperity'', e_page = 2\<rparr>], {''Road Map to Prosperity''})"
proof -
  have a: "is_structural_heading (clean (l_text (repeated_heading_lines ! 0))) \<and>
   \<not> is_body_text (clean (l_text (repeated_heading_lines ! 0)))"
    unfolding repeated_heading_lines_def by code_simp
  have n: "get_heading_level (clean (l_text (repeated_heading_lines ! 0))) (l_size (repeated_heading_lines ! 0))
     (analyze_fonts round_dec1 repeated_heading_lines) = None"
    unfolding repeated_heading_lines_def by code_simp
  have s: "scan (analyze_fonts round_dec1 repeated_heading_lines) repeated_heading_lines ([], {}) =
     ([\<lparr>e_level = H1, e_text = ''Road Map to Prosperity'', e_page = 2\<rparr>], {''Road Map to Prosperity''})"
    unfolding repeated_heading_lines_def by code_simp
  from seen_set_invariant[of "analyze_fonts round_dec1 repeated_heading_lines" 5 repeated_heading_lines
      "repeated_heading_lines ! 0" "([], {})"] a n s
  show ?thesis by simp
qed

subsection \<open>Title and entries\<close>

text \<open>Claim C10: for the one-line stream whose line is \<open>Summary\<close> on page 1, that line is
  the title and also an entry of the outline; the outline is the scan of all the lines,
  whatever the title took.\<close>

theorem title_run_also_entry:
  "build_outline round1 [\<lparr>l_text = ''Summary'', l_size = 14, l_bold = False, l_page = 1\<rparr>] =
     \<lparr>title = ''Summary'',
      outline = [\<lparr>e_level = H2, e_text = ''Summary'', e_page = 1\<rparr>]\<rparr> \<and>
   outline (build_outline round1 lines) = fst (scan (analyze_fonts round1 lines) lines ([], {}))"
proof
  let ?l = "\<lparr>l_text = ''Summary'', l_size = 14, l_bold = False, l_page = 1\<rparr>"
  have c: "clean ''Summary'' = ''Summary''" by code_simp
  have nb: "\<not> is_body_text ''Summary''" by code_simp
  have st: "is_structural_heading ''Summary''" by code_simp
  have m: "medium_size (analyze_fonts round1 [?l]) = 12"
    by (simp add: analyze_fonts_def)
  have lv: "get_heading_level ''Summary'' sz fs = Some H2" for sz fs
  proof -
    have "strip ''Summary'' = ''Summary''" by code_simp
    moreover have "\<not> substr_in ''Digital Library'' ''Summary''" "\<not> substr_in ''Critical Component'' ''Summary''"
      by code_simp+
    ultimately show ?thesis by (simp add: get_heading_level_def)
  qed
  have t: "title (build_outline round1 [?l]) = ''Summary''"
    by (simp add: build_outline_def Let_def page1_large_cond_def m nb c)
  have "scan fs [?l] ([], {}) = ([\<lparr>e_level = H2, e_text = ''Summary'', e_page = 1\<rparr>], {''Summary''})" for fs
    by (simp add: scan_Cons scan_Nil scan_step_def Let_def c nb st lv)
  then have o: "outline (build_outline round1 [?l]) = [\<lparr>e_level = H2, e_text = ''Summary'', e_page = 1\<rparr>]"
    by (simp add: outline_build)
  show "build_outline round1 [?l] = \<lparr>title = ''Summary'', outline = [\<lparr>e_level = H2, e_text = ''Summary'', e_page = 1\<rparr>]\<rparr>"
    using t o by (cases "build_outline round1 [?l]") simp
  show "outline (build_outline round1 lines) = fst (scan (analyze_fonts round1 lines) lines ([], {}))"
    by (rule outline_build)
qed


subsection \<open>The bold flag\<close>

lemma unbold_fields:
  "l_text (unbold l) = l_text l" "l_size (unbold l) = l_size l" "l_page (unbold l) = l_page l"
  by (simp_all add: unbold_def)

lemma scan_step_unbold: "scan_step fs (unbold l) st = scan_step fs l st"
  by (simp add: scan_step_def Let_def unbold_fields split: option.splits)

lemma scan_unbold: "scan fs (map unbold ls) st = scan fs ls st"
  by (induction ls arbitrary: st) (simp_all add: scan_Nil scan_Cons scan_step_unbold)

lemma analyze_fonts_unbold: "analyze_fonts round1 (map unbold ls) = analyze_fonts round1 ls"
  by (simp add: analyze_fonts_def unbold_fields comp_def)

lemma page1_large_cond_unbold: "page1_large_cond fs (unbold l) = page1_large_cond fs l"
  by (simp add: page1_large_cond_def unbold_fields)

lemma build_outline_unbold: "build_outline round1 (map unbold ls) = build_outline round1 ls"
proof -
  have "map l_text (take 3 (filter (page1_large_cond fs) (map unbold ls))) =
        map l_text (take 3 (filter (page1_large_cond fs) ls))" for fs
    by (simp add: filter_map comp_def page1_large_cond_unbold take_map unbold_fields)
  then show ?thesis
    by (simp add: build_outline_def Let_def analyze_fonts_unbold scan_unbold)
qed

text \<open>Claim C6: two streams that agree once the bold flags are erased give the same
  result, title and entries.\<close>

theorem bold_noninterference:
  "map unbold xs = map unbold ys \<Longrightarrow> build_outline round1 xs = build_outline round1 ys"
  using build_outline_unbold[of round1 xs] build_outline_unbold[of round1 ys] by simp

theorem bold_noninterference_witness:
  "map l_bold two_page_lines \<noteq> map l_bold (map unbold two_page_lines) \<and>
   map unbold two_page_lines = map unbold (map unbold two_page_lines) \<and>
   build_outline round_dec1 two_page_lines = build_outline round_dec1 (map unbold two_page_lines)"
proof -
  have h: "map unbold two_page_lines = map unbold (map unbold two_page_lines)"
    by (simp add: unbold_def)
  have d: "map l_bold two_page_lines \<noteq> map l_bold (map unbold two_page_lines)"
    by (simp add: two_page_lines_def unbold_def)
  from bold_noninterference[OF h, of round_dec1] h d show ?thesis by simp
qed

subsection \<open>Normalized texts\<close>

lemma isspace_space: "isspace CHR '' ''" by (simp add: isspace_def)

lemma nf_body_last: "nf_body s \<Longrightarrow> s \<noteq> [] \<Longrightarrow> \<not> isspace (last s)"
  by (induction s) (auto split: if_splits)

lemma sub_ws_nf: "nf_body s \<Longrightarrow> sub_ws s = s"
proof (induction s rule: sub_ws.induct)
  case 1 show ?case by simp
next
  case (2 c cs)
  show ?case
  proof (cases "isspace c")
    case True
    with "2.prems" obtain d ds where cs: "cs = d # ds" and d: "\<not> isspace d" and c: "c = CHR '' ''"
      and nf: "nf_body cs" by (cases cs) auto
    have "dropWhile isspace cs = cs" using cs d by simp
    with "2.IH"(1)[OF True] nf c True show ?thesis by simp
  next
    case False
    with "2.prems" have "nf_body cs" by simp
    with "2.IH"(2)[OF False] False show ?thesis by simp
  qed
qed

lemma dropWhile_id: "xs = [] \<or> \<not> P (hd xs) \<Longrightarrow> dropWhile P xs = xs"
  by (cases xs) auto

lemma strip_id: "s = [] \<or> (\<not> isspace (hd s) \<and> \<not> isspace (last s)) \<Longrightarrow> strip s = s"
  by (cases "s = []") (simp_all add: strip_def dropWhile_id hd_rev)

lemma dropWhile_rev_Nil: "a = [] \<Longrightarrow> dropWhile P (rev a) = []"
  by simp

lemma strip_ends: "strip s = [] \<or> (\<not> isspace (hd (strip s)) \<and> \<not> isspace (last (strip s)))"
proof (cases "strip s = []")
  case True then show ?thesis by simp
next
  case False
  let ?a = "dropWhile isspace s"
  let ?b = "dropWhile isspace (rev ?a)"
  have b: "?b \<noteq> []" using False by (simp add: strip_def)
  then have lb: "\<not> isspace (hd ?b)" by (rule hd_dropWhile)
  have a: "?a \<noteq> []"
  proof
    assume "?a = []"
    then have "?b = []" by (rule dropWhile_rev_Nil)
    with b show False by simp
  qed
  then have ha: "\<not> isspace (hd ?a)" by (rule hd_dropWhile)
  have "last (strip s) = hd ?b" using b by (simp add: strip_def last_rev)
  moreover have "hd (strip s) = last ?b" using b by (simp add: strip_def hd_rev)
  moreover have "last ?b = last (rev ?a)" using b by (metis last_appendR takeWhile_dropWhile_id)
  moreover have "last (rev ?a) = hd ?a" using a by (simp add: last_rev)
  ultimately show ?thesis using lb ha by simp
qed

lemma sub_ws_hd: "s \<noteq> [] \<Longrightarrow> \<not> isspace (hd s) \<Longrightarrow> sub_ws s \<noteq> [] \<and> hd (sub_ws s) = hd s"
  by (cases s) auto

lemma sub_ws_makes_nf: "s = [] \<or> \<not> isspace (last s) \<Longrightarrow> nf_body (sub_ws s)"
proof (induction s rule: sub_ws.induct)
  case 1 show ?case by simp
next
  case (2 c cs)
  show ?case
  proof (cases "isspace c")
    case True
    let ?r = "dropWhile isspace cs"
    from "2.prems" True have cs: "cs \<noteq> []" and l: "\<not> isspace (last cs)" by (auto split: if_splits)
    have r: "?r \<noteq> []" using cs l by (metis dropWhile_eq_Nil_conv last_in_set)
    then have h: "\<not> isspace (hd ?r)" by (rule hd_dropWhile)
    have "last ?r = last cs" using r by (metis last_appendR takeWhile_dropWhile_id)
    with l have "nf_body (sub_ws ?r)" using "2.IH"(1)[OF True] by simp
    with sub_ws_hd[OF r h] h True show ?thesis by (simp add: isspace_space)
  next
    case False
    show ?thesis
    proof (cases "cs = []")
      case True with False show ?thesis by simp
    next
      case ne: False
      with "2.prems" have "\<not> isspace (last cs)" by simp
      with "2.IH"(2)[OF False] False show ?thesis by simp
    qed
  qed
qed

lemma clean_normal: "normal_text (clean x)"
proof -
  from strip_ends[of x] have e: "strip x = [] \<or> (\<not> isspace (hd (strip x)) \<and> \<not> isspace (last (strip x)))" .
  then have "nf_body (sub_ws (strip x))" by (intro sub_ws_makes_nf) auto
  moreover have "sub_ws (strip x) = [] \<or> \<not> isspace (hd (sub_ws (strip x)))"
  proof (cases "strip x = []")
    case True then show ?thesis by simp
  next
    case False
    with e have h: "\<not> isspace (hd (strip x))" by simp
    from sub_ws_hd[OF False h] h show ?thesis by simp
  qed
  ultimately show ?thesis by (simp add: normal_text_def clean_def)
qed

lemma normal_strip: "normal_text s \<Longrightarrow> strip s = s"
  using nf_body_last[of s] by (intro strip_id) (auto simp: normal_text_def)

lemma normal_clean: "normal_text s \<Longrightarrow> clean s = s"
  by (simp add: clean_def normal_strip sub_ws_nf normal_text_def)

lemma normal_iff: "normal_text s \<longleftrightarrow> clean s = s"
  using clean_normal[of s] normal_clean[of s] by auto

lemma strip_clean: "strip (clean x) = clean x"
  by (simp add: normal_strip clean_normal)

lemma clean_clean: "clean (clean x) = clean x"
  by (simp add: normal_clean clean_normal)

lemma nf_body_append:
  "nf_body x \<Longrightarrow> nf_body y \<Longrightarrow> y \<noteq> [] \<Longrightarrow> nf_body (x @ y)"
  by (induction x) (auto split: if_splits)

lemma normal_join:
  "\<forall>t \<in> set ts. normal_text t \<and> t \<noteq> [] \<Longrightarrow> ts \<noteq> [] \<Longrightarrow>
   normal_text (join_sp ts) \<and> join_sp ts \<noteq> []"
proof (induction ts rule: join_sp.induct)
  case 1 then show ?case by simp
next
  case (2 x) then show ?case by simp
next
  case (3 x y ys)
  then have r: "normal_text (join_sp (y # ys))" "join_sp (y # ys) \<noteq> []" by auto
  have x: "normal_text x" "x \<noteq> []" using "3.prems" by auto
  have "nf_body (CHR '' '' # join_sp (y # ys))"
    using r by (simp add: normal_text_def isspace_space)
  then have "nf_body (x @ CHR '' '' # join_sp (y # ys))"
    using x by (intro nf_body_append) (auto simp: normal_text_def)
  then show ?case using x by (auto simp: normal_text_def)
qed

lemma strip_Nil_iff: "strip s = [] \<longleftrightarrow> (\<forall>c \<in> set s. isspace c)"
proof
  assume "strip s = []"
  then have a: "\<forall>x \<in> set (dropWhile isspace s). isspace x" by (simp add: strip_def)
  have "dropWhile isspace s = []"
  proof (rule ccontr)
    assume n: "dropWhile isspace s \<noteq> []"
    then have "\<not> isspace (hd (dropWhile isspace s))" by (rule hd_dropWhile)
    with a n show False by simp
  qed
  then show "\<forall>c \<in> set s. isspace c" by simp
next
  assume "\<forall>c \<in> set s. isspace c"
  then show "strip s = []" by (auto simp: strip_def dest: set_dropWhileD)
qed

lemma sub_ws_Nil_iff: "sub_ws s = [] \<longleftrightarrow> s = []"
  by (cases s) auto

lemma clean_Nil_iff: "clean s = [] \<longleftrightarrow> (\<forall>c \<in> set s. isspace c)"
  by (simp add: clean_def sub_ws_Nil_iff strip_Nil_iff)

lemma set_join_sp: "p \<in> set ps \<Longrightarrow> set p \<subseteq> set (join_sp ps)"
  by (induction ps rule: join_sp.induct) auto

text \<open>Every line read from a document has a non-empty, normalized text.\<close>

lemma line_of_normal:
  "line_of n spans = Some l \<Longrightarrow> l_text l \<noteq> [] \<and> clean (l_text l) = l_text l"
proof -
  assume a: "line_of n spans = Some l"
  let ?parts = "map s_text (filter (\<lambda>sp. strip (s_text sp) \<noteq> []) spans)"
  from a have ne: "?parts \<noteq> []" and t: "l_text l = clean (join_sp ?parts)"
    by (auto simp: line_of_def Let_def split: if_splits)
  from ne obtain p where p: "p \<in> set ?parts" by (cases ?parts) auto
  then have "strip p \<noteq> []" by auto
  then obtain c where "c \<in> set p" "\<not> isspace c" by (auto simp: strip_Nil_iff)
  with set_join_sp[OF p] have "clean (join_sp ?parts) \<noteq> []" by (auto simp: clean_Nil_iff)
  with t show ?thesis by (simp add: clean_clean)
qed

lemma collect_lines_normal:
  "l \<in> set (collect_lines doc) \<Longrightarrow> l_text l \<noteq> [] \<and> clean (l_text l) = l_text l"
  by (auto simp: collect_lines_def block_lines_def map_filter_def
           split: option.splits dest: line_of_normal)

subsection \<open>The title\<close>

lemma title_build:
  "title (build_outline round1 lines) =
     (let ttl = clean (join_sp (map l_text
                  (take 3 (filter (page1_large_cond (analyze_fonts round1 lines)) lines))))
      in if ttl \<noteq> [] then ttl else ''Untitled'')"
  by (simp add: build_outline_def Let_def)

lemma title_no_candidates:
  "filter (page1_large_cond (analyze_fonts round1 lines)) lines = [] \<Longrightarrow>
   title (build_outline round1 lines) = ''Untitled''"
  by (simp add: title_build Let_def clean_Nil)

lemma title_candidates:
  assumes wf: "\<forall>l \<in> set lines. l_text l \<noteq> [] \<and> clean (l_text l) = l_text l"
    and ne: "filter (page1_large_cond (analyze_fonts round1 lines)) lines \<noteq> []"
  shows "title (build_outline round1 lines) =
     join_sp (map l_text (take 3 (filter (page1_large_cond (analyze_fonts round1 lines)) lines)))"
proof -
  let ?p = "take 3 (filter (page1_large_cond (analyze_fonts round1 lines)) lines)"
  have sub: "set ?p \<subseteq> set lines"
    using set_take_subset[of 3 "filter (page1_large_cond (analyze_fonts round1 lines)) lines"] by auto
  have ne': "map l_text ?p \<noteq> []" using ne by simp
  have "normal_text t \<and> t \<noteq> []" if "t \<in> set (map l_text ?p)" for t
  proof -
    from that obtain l where "l \<in> set ?p" "t = l_text l" by auto
    with sub wf have "t \<noteq> []" "clean t = t" by auto
    then show ?thesis by (simp add: normal_iff)
  qed
  then have "\<forall>t \<in> set (map l_text ?p). normal_text t \<and> t \<noteq> []" by blast
  from normal_join[OF this ne']
  have c: "clean (join_sp (map l_text ?p)) = join_sp (map l_text ?p)" and n: "join_sp (map l_text ?p) \<noteq> []"
    by (simp_all add: normal_clean)
  have "title (build_outline round1 lines) =
     (if clean (join_sp (map l_text ?p)) \<noteq> [] then clean (join_sp (map l_text ?p)) else ''Untitled'')"
    by (simp only: title_build Let_def)
  with c n show ?thesis by simp
qed


lemma page1_large_cond_clean:
  "clean (l_text l) = l_text l \<Longrightarrow>
   page1_large_cond fs l =
     (l_page l = 1 \<and> l_size l \<ge> medium_size fs \<and> \<not> is_body_text (clean (l_text l)))"
  by (simp add: page1_large_cond_def)

text \<open>Claim C5: on a stream whose texts are non-empty and normalized (as the lines read
  from a document are, \<open>collect_lines_normal\<close>), the title is the join with single spaces
  of the normalized texts of the first three lines on page 1 with a size of at least the
  medium size that are not body text, and \<open>Untitled\<close> when there is no such line; in
  particular a stream (of any texts) without a page-1 line of at least the medium size
  has the title \<open>Untitled\<close>.\<close>

theorem title_derivation:
  assumes wf: "\<forall>l \<in> set lines. l_text l \<noteq> [] \<and> clean (l_text l) = l_text l"
  shows "title (build_outline round1 lines) =
     (let fs = analyze_fonts round1 lines;
          cands = filter (\<lambda>l. l_page l = 1 \<and> l_size l \<ge> medium_size fs \<and>
                               \<not> is_body_text (clean (l_text l))) lines
      in if cands = [] then ''Untitled''
         else join_sp (map (\<lambda>l. clean (l_text l)) (take 3 cands))) \<and>
   ((\<forall>l \<in> set lines. l_page l = 1 \<longrightarrow> l_size l < medium_size (analyze_fonts round1 lines)) \<longrightarrow>
      title (build_outline round1 lines) = ''Untitled'')"
proof
  let ?fs = "analyze_fonts round1 lines"
  let ?c = "\<lambda>l. l_page l = 1 \<and> l_size l \<ge> medium_size ?fs \<and> \<not> is_body_text (clean (l_text l))"
  have same: "filter ?c lines = filter (page1_large_cond ?fs) lines"
  proof (rule filter_cong)
    show "lines = lines" by (rule refl)
    fix x assume "x \<in> set lines"
    with wf have "clean (l_text x) = l_text x" by blast
    then show "?c x = page1_large_cond ?fs x" by (simp only: page1_large_cond_clean)
  qed
  let ?p = "take 3 (filter (page1_large_cond ?fs) lines)"
  have sub: "set ?p \<subseteq> set lines"
    using set_take_subset[of 3 "filter (page1_large_cond ?fs) lines"] by auto
  have texts: "map (\<lambda>l. clean (l_text l)) ?p = map l_text ?p"
  proof (rule map_cong)
    show "?p = ?p" by (rule refl)
    fix x assume "x \<in> set ?p"
    with sub wf show "clean (l_text x) = l_text x" by blast
  qed
  have t: "title (build_outline round1 lines) =
     (if filter (page1_large_cond ?fs) lines = [] then ''Untitled''
      else join_sp (map (\<lambda>l. clean (l_text l)) ?p))"
  proof (cases "filter (page1_large_cond ?fs) lines = []")
    case True
    with title_no_candidates[OF True] show ?thesis by simp
  next
    case False
    show ?thesis using title_candidates[OF wf False] by (simp only: texts False if_False)
  qed
  show "title (build_outline round1 lines) =
     (let fs = analyze_fonts round1 lines;
          cands = filter (\<lambda>l. l_page l = 1 \<and> l_size l \<ge> medium_size fs \<and>
                               \<not> is_body_text (clean (l_text l))) lines
      in if cands = [] then ''Untitled''
         else join_sp (map (\<lambda>l. clean (l_text l)) (take 3 cands)))"
    unfolding Let_def same by (rule t)
next
  show "(\<forall>l \<in> set lines. l_page l = 1 \<longrightarrow> l_size l < medium_size (analyze_fonts round1 lines)) \<longrightarrow>
      title (build_outline round1 lines) = ''Untitled''"
  proof
    assume a: "\<forall>l \<in> set lines. l_page l = 1 \<longrightarrow> l_size l < medium_size (analyze_fonts round1 lines)"
    have "\<not> page1_large_cond (analyze_fonts round1 lines) x" if "x \<in> set lines" for x
      using a that by (auto simp: page1_large_cond_def)
    then have "filter (page1_large_cond (analyze_fonts round1 lines)) lines = []"
      by (simp add: filter_empty_conv)
    then show "title (build_outline round1 lines) = ''Untitled''"
      by (rule title_no_candidates)
  qed
qed

theorem title_derivation_witness:
  "list_all (\<lambda>l. l_text l \<noteq> [] \<and> clean (l_text l) = l_text l) title_lines \<and>
   title (build_outline round_dec1 title_lines) = ''Ontario Libraries Working Together A Plan'' \<and>
   list_all (\<lambda>l. l_text l \<noteq> [] \<and> clean (l_text l) = l_text l \<and> l_page l \<noteq> 1) prose_lines \<and>
   title (build_outline round_dec1 prose_lines) = ''Untitled''"
proof -
  have v: "list_all (\<lambda>l. l_text l \<noteq> [] \<and> clean (l_text l) = l_text l \<and> l_page l \<noteq> 1) prose_lines"
    unfolding prose_lines_def by code_simp
  then have v': "\<forall>l \<in> set prose_lines. l_text l \<noteq> [] \<and> clean (l_text l) = l_text l"
    and p': "\<forall>l \<in> set prose_lines. l_page l = 1 \<longrightarrow>
       l_size l < medium_size (analyze_fonts round_dec1 prose_lines)"
    by (simp_all add: list_all_iff)
  from title_derivation[OF v', of round_dec1]
  have "(\<forall>l \<in> set prose_lines. l_page l = 1 \<longrightarrow>
       l_size l < medium_size (analyze_fonts round_dec1 prose_lines)) \<longrightarrow>
      title (build_outline round_dec1 prose_lines) = ''Untitled''" by (rule conjunct2)
  from this p' have u: "title (build_outline round_dec1 prose_lines) = ''Untitled''" by (rule mp)
  have w: "list_all (\<lambda>l. l_text l \<noteq> [] \<and> clean (l_text l) = l_text l) title_lines"
    unfolding title_lines_def by code_simp
  then have w': "\<forall>l \<in> set title_lines. l_text l \<noteq> [] \<and> clean (l_text l) = l_text l"
    by (simp add: list_all_iff)
  have e: "(let fs = analyze_fonts round_dec1 title_lines;
          cands = filter (\<lambda>l. l_page l = 1 \<and> l_size l \<ge> medium_size fs \<and>
                               \<not> is_body_text (clean (l_text l))) title_lines
      in if cands = [] then ''Untitled''
         else join_sp (map (\<lambda>l. clean (l_text l)) (take 3 cands))) =
      ''Ontario Libraries Working Together A Plan''"
    unfolding title_lines_def by code_simp
  from title_derivation[OF w', of round_dec1]
  have "title (build_outline round_dec1 title_lines) =
     (let fs = analyze_fonts round_dec1 title_lines;
          cands = filter (\<lambda>l. l_page l = 1 \<and> l_size l \<ge> medium_size fs \<and>
                               \<not> is_body_text (clean (l_text l))) title_lines
      in if cands = [] then ''Untitled''
         else join_sp (map (\<lambda>l. clean (l_text l)) (take 3 cands)))" by (rule conjunct1)
  then have "title (build_outline round_dec1 title_lines) = ''Ontario Libraries Working Together A Plan''"
    by (simp only: e)
  with w v u show ?thesis by simp
qed

subsection \<open>Level assignment\<close>

text \<open>Claim C2 as stated fails for H3. The text \<open>Critical Component Guidance\<close> is
  structural and contains none of the terms of the structural test, yet it is given H3
  (it contains \<open>Guidance\<close>), where the stated rules give no level at size 10. The text
  \<open>1.5 Critical Component\<close> does not match the numbered-section pattern, yet it is given
  H3 (digits and a period), where the stated rules give H2 at size 12.\<close>

theorem level_precedence_counterexample:
  "is_structural_heading (clean ''Critical Component Guidance'') \<and>
   \<not> is_body_text (clean ''Critical Component Guidance'') \<and>
   get_heading_level (clean ''Critical Component Guidance'') 10
     \<lparr>large_size = 14, medium_size = 12, body_size = 11\<rparr> = Some H3 \<and>
   claimed_heading_level (clean ''Critical Component Guidance'') 10
     \<lparr>large_size = 14, medium_size = 12, body_size = 11\<rparr> = None \<and>
   is_structural_heading (clean ''1.5 Critical Component'') \<and>
   \<not> is_body_text (clean ''1.5 Critical Component'') \<and>
   get_heading_level (clean ''1.5 Critical Component'') 12
     \<lparr>large_size = 14, medium_size = 12, body_size = 11\<rparr> = Some H3 \<and>
   claimed_heading_level (clean ''1.5 Critical Component'') 12
     \<lparr>large_size = 14, medium_size = 12, body_size = 11\<rparr> = Some H2"
  by code_simp

text \<open>Claim C2, amended: for every normalized text, so for every run accepted as
  structural, the level is that of the first matching rule among: H1 for a size of at
  least the large size and a text containing \<open>Digital Library\<close> or
  \<open>Critical Component\<close>; H2 for \<open>Summary\<close>, \<open>Background\<close> or a text starting with
  \<open>The Business Plan\<close>, \<open>Approach and\<close>, \<open>Evaluation and\<close> or \<open>Appendix\<close>; H3 for a
  text starting with \<open>Timeline\<close>, \<open>Milestones\<close> or \<open>Phase\<close>, or with digits followed by a
  period, or containing one of the eleven terms of \<^const>\<open>level_patterns\<close>; H4 for a
  text starting with \<open>For each\<close> and ending with a colon; H1 for a size of at least the
  large size; H2 for a size of at least the medium size; and no level otherwise.\<close>

theorem level_precedence:
  "get_heading_level (clean text) sz fs = amended_heading_level (clean text) sz fs"
  by (simp add: get_heading_level_def amended_heading_level_def level_rules_def
        level_patterns_def strip_clean Let_def)

theorem level_precedence_witness:
  "is_structural_heading (clean ''1. Introduction'') \<and>
   get_heading_level (clean ''1. Introduction'') 13
     \<lparr>large_size = 14, medium_size = 13, body_size = 11\<rparr> = Some H3 \<and>
   is_structural_heading (clean ''Background'') \<and>
   get_heading_level (clean ''Background'') 13
     \<lparr>large_size = 14, medium_size = 13, body_size = 11\<rparr> = Some H2 \<and>
   is_structural_heading (clean ''Road Map to Prosperity'') \<and>
   get_heading_level (clean ''Road Map to Prosperity'') 12
     \<lparr>large_size = 14, medium_size = 13, body_size = 11\<rparr> = None"
proof -
  let ?fs = "\<lparr>large_size = 14, medium_size = 13, body_size = 11\<rparr>"
  have s: "is_structural_heading (clean ''1. Introduction'')"
    "is_structural_heading (clean ''Background'')"
    "is_structural_heading (clean ''Road Map to Prosperity'')" by code_simp+
  have a: "amended_heading_level (clean ''1. Introduction'') 13 ?fs = Some H3"
    "amended_heading_level (clean ''Background'') 13 ?fs = Some H2"
    "amended_heading_level (clean ''Road Map to Prosperity'') 12 ?fs = None" by code_simp+
  show ?thesis
    using s a by (simp only: level_precedence simp_thms)
qed

subsection \<open>The font profile\<close>

lemma map_of_bump:
  "map_of (bump k m) = (map_of m)(k \<mapsto> (case map_of m k of None \<Rightarrow> 1 | Some c \<Rightarrow> c + 1))"
  by (induction m) (auto simp: fun_eq_iff)

lemma keys_bump: "fst ` set (bump k m) = insert k (fst ` set m)"
proof (induction m)
  case Nil show ?case by simp
next
  case (Cons a m)
  obtain k' n where a: "a = (k', n)" by (cases a)
  show ?case
  proof (cases "k = k'")
    case True then show ?thesis by (simp add: a)
  next
    case False then show ?thesis using Cons.IH by (simp add: a insert_commute)
  qed
qed

lemma distinct_bump: "distinct (map fst m) \<Longrightarrow> distinct (map fst (bump k m))"
proof (induction m)
  case Nil then show ?case by simp
next
  case (Cons a m)
  obtain k' n where a: "a = (k', n)" by (cases a)
  show ?case using Cons keys_bump[of k m] by (auto simp: a)
qed

lemma size_counts_snoc: "size_counts (rs @ [r]) = bump r (size_counts rs)"
  by (simp add: size_counts_def)

lemma size_counts_props:
  "distinct (map fst (size_counts rs)) \<and> fst ` set (size_counts rs) = set rs \<and>
   map_of (size_counts rs) = (\<lambda>k. if k \<in> set rs then Some (int (count_list rs k)) else None)"
proof (induction rs rule: rev_induct)
  case Nil show ?case by (simp add: size_counts_def)
next
  case (snoc r rs)
  then have d: "distinct (map fst (size_counts rs))" and k: "fst ` set (size_counts rs) = set rs"
    and m: "map_of (size_counts rs) = (\<lambda>k. if k \<in> set rs then Some (int (count_list rs k)) else None)"
    by simp_all
  have "map_of (size_counts (rs @ [r])) =
        (\<lambda>k. if k \<in> set (rs @ [r]) then Some (int (count_list (rs @ [r]) k)) else None)"
    by (auto simp: size_counts_snoc map_of_bump m fun_eq_iff count_list_0_iff)
  then show ?case using d k by (simp add: size_counts_snoc distinct_bump keys_bump)
qed

lemma size_counts_entry:
  "x \<in> set (size_counts rs) \<Longrightarrow> snd x = int (count_list rs (fst x))"
proof -
  assume a: "x \<in> set (size_counts rs)"
  obtain k n where x: "x = (k, n)" by (cases x)
  from size_counts_props[of rs] have d: "distinct (map fst (size_counts rs))"
    and m: "map_of (size_counts rs) k = (if k \<in> set rs then Some (int (count_list rs k)) else None)"
    by simp_all
  from a x d have "map_of (size_counts rs) k = Some n" by simp
  with m show ?thesis by (simp add: x split: if_splits)
qed

lemma inj_rank_key: "inj (rank_key rs)"
  by (auto simp: inj_def rank_key_def)

lemma inj_on_rank_key: "inj_on (rank_key rs) A"
  by (auto simp: inj_on_def rank_key_def)

lemma sorted_sizes_eq:
  "map fst (sort_key (\<lambda>x. (- snd x, - fst x)) (size_counts rs)) =
   sort_key (rank_key rs) (remdups rs)"
proof -
  let ?L1 = "map fst (sort_key (\<lambda>x. (- snd x, - fst x)) (size_counts rs))"
  let ?L2 = "sort_key (rank_key rs) (remdups rs)"
  have keys: "map (rank_key rs) ?L1 = map (\<lambda>x. (- snd x, - fst x)) (sort_key (\<lambda>x. (- snd x, - fst x)) (size_counts rs))"
    by (auto simp: rank_key_def size_counts_entry)
  have s1: "sorted (map (rank_key rs) ?L1)" unfolding keys by (rule sorted_sort_key)
  have s2: "sorted (map (rank_key rs) ?L2)" by (rule sorted_sort_key)
  have "distinct (map fst (size_counts rs))" using size_counts_props[of rs] by simp
  then have d1: "distinct ?L1" by (simp add: distinct_map)
  have d2: "distinct ?L2" by simp
  have set1: "set ?L1 = set rs" using size_counts_props[of rs] by simp
  have set2: "set ?L2 = set rs" by simp
  have "map (rank_key rs) ?L1 = map (rank_key rs) ?L2"
  proof (rule sorted_distinct_set_unique)
    show "sorted (map (rank_key rs) ?L1)" by (rule s1)
    show "sorted (map (rank_key rs) ?L2)" by (rule s2)
    show "distinct (map (rank_key rs) ?L1)"
      using d1 by (simp only: distinct_map inj_on_rank_key simp_thms)
    show "distinct (map (rank_key rs) ?L2)"
      using d2 by (simp only: distinct_map inj_on_rank_key simp_thms)
    show "set (map (rank_key rs) ?L1) = set (map (rank_key rs) ?L2)"
      using set1 set2 by (simp only: set_map)
  qed
  then show ?thesis by (rule iffD1[OF inj_map_eq_map[OF inj_rank_key]])
qed

lemma analyze_fonts_ranked:
  "analyze_fonts round1 lines =
     (let r = ranked_sizes round1 lines
      in \<lparr>large_size = (if r \<noteq> [] then r ! 0 else 14),
          medium_size = (if length r > 1 then r ! 1 else 12),
          body_size = (if length r > 2 then r ! 2 else 11)\<rparr>)"
proof -
  let ?rs = "map (\<lambda>l. round1 (l_size l)) lines"
  let ?s = "sort_key (\<lambda>x. (- snd x, - fst x)) (size_counts ?rs)"
  have c: "fold (\<lambda>sz counts. bump (round1 sz) counts) (map l_size lines) [] = size_counts ?rs"
    by (simp add: size_counts_def fold_map comp_def)
  have r: "ranked_sizes round1 lines = map fst ?s"
    by (simp add: ranked_sizes_def Let_def sorted_sizes_eq)
  have "analyze_fonts round1 lines =
      \<lparr>large_size = (if ?s \<noteq> [] then fst (?s ! 0) else 14),
       medium_size = (if length ?s > 1 then fst (?s ! 1) else 12),
       body_size = (if length ?s > 2 then fst (?s ! 2) else 11)\<rparr>"
    by (simp only: analyze_fonts_def Let_def c)
  also have "\<dots> = \<lparr>large_size = (if map fst ?s \<noteq> [] then map fst ?s ! 0 else 14),
       medium_size = (if length (map fst ?s) > 1 then map fst ?s ! 1 else 12),
       body_size = (if length (map fst ?s) > 2 then map fst ?s ! 2 else 11)\<rparr>"
    by (cases ?s) (simp_all del: sort_key_simps)
  finally show ?thesis by (simp only: r Let_def)
qed

text \<open>Claim C4: \<^const>\<open>analyze_fonts\<close> returns the profile of the specification: the
  sizes are rounded (by \<open>round1\<close>), counted, the distinct rounded sizes ordered by
  descending count and then descending size, and the first three are the large, medium
  and body size, with the defaults 14, 12 and 11 for the missing tiers; on the empty
  stream the profile is the three defaults. The function has no failing branch.\<close>

theorem font_profile:
  "analyze_fonts round1 lines = spec_font_profile round1 lines \<and>
   analyze_fonts round1 [] = \<lparr>large_size = 14, medium_size = 12, body_size = 11\<rparr>"
proof
  show "analyze_fonts round1 lines = spec_font_profile round1 lines"
  proof (cases "ranked_sizes round1 lines")
    case Nil
    then show ?thesis by (simp add: analyze_fonts_ranked spec_font_profile_def)
  next
    case (Cons a as)
    then show ?thesis
      by (cases as; cases "tl as") (simp_all add: analyze_fonts_ranked spec_font_profile_def)
  qed
  show "analyze_fonts round1 [] = \<lparr>large_size = 14, medium_size = 12, body_size = 11\<rparr>"
    by (simp add: analyze_fonts_def)
qed


theorem font_profile_witness:
  "analyze_fonts round_dec1 repeated_heading_lines =
     \<lparr>large_size = 14, medium_size = 12, body_size = 10\<rparr> \<and>
   analyze_fonts round_dec1 (take 2 repeated_heading_lines) =
     \<lparr>large_size = 14, medium_size = 10, body_size = 11\<rparr>"
proof -
  have a: "spec_font_profile round_dec1 repeated_heading_lines =
      \<lparr>large_size = 14, medium_size = 12, body_size = 10\<rparr>"
    unfolding repeated_heading_lines_def by code_simp
  have b: "spec_font_profile round_dec1 (take 2 repeated_heading_lines) =
      \<lparr>large_size = 14, medium_size = 10, body_size = 11\<rparr>"
    unfolding repeated_heading_lines_def by code_simp
  from font_profile[of round_dec1 repeated_heading_lines]
       font_profile[of round_dec1 "take 2 repeated_heading_lines"] a b
  show ?thesis by simp
qed

end
